theory Spec2Isabelle
  imports Main "HOL-Library.Word"
begin

unbundle bit_operations_syntax

section \<open>Data model\<close>

text \<open>
  The interleaving library \<^verbatim>\<open>src/ileave.hpp\<close> works on \<^verbatim>\<open>uint32_t\<close> and \<^verbatim>\<open>uint64_t\<close>
  values, modelled as words of that width: \<open>push_bit\<close> is \<^verbatim>\<open><<\<close>, \<open>drop_bit\<close> is \<^verbatim>\<open>>>\<close>,
  \<open>ucast\<close> is the conversion between the two widths. Values of \<^verbatim>\<open>size_t\<close> (strides, lane
  counts, loop counters) are natural numbers; the only arithmetic the code does on them is
  \<^verbatim>\<open>bits + 1\<close>, \<^verbatim>\<open>COUNT - 1\<close> under \<^verbatim>\<open>COUNT != 0\<close> and loop increments, none of which wraps
  for a stride below \<open>2 ^ 64 - 1\<close>. The one stride left, \<open>2 ^ 64 - 1\<close>, is where \<^verbatim>\<open>bits + 1\<close>
  wraps to 0; the run-time entry \<open>ileaveZeros_naive_size_t\<close> below takes the stride as a
  64-bit word and covers it. Template parameters are ordinary arguments.
\<close>

type_synonym u32 = "32 word"
type_synonym u64 = "64 word"

section \<open>Numeric utilities the header includes\<close>

text \<open>
  Modelled from the spec: \<^verbatim>\<open>intdiv.hpp\<close> is not part of the sources at hand. The spec asks
  for "a ceiling-division function for unsigned integers". An unsigned division by zero has
  no result in the source, so the function is only ever applied to a divisor that is not
  zero: a caller that can reach it with zero checks for that first.
\<close>

definition divCeil :: "nat \<Rightarrow> nat \<Rightarrow> nat" where
  "divCeil x y = (x + y - 1) div y"

text \<open>
  Modelled from the spec: \<^verbatim>\<open>intlog.hpp\<close> is not part of the sources at hand. The spec asks
  for "a floor-log2 function returning the index of the highest set bit, with a defined
  result (conventionally 0) for an input of 0".
\<close>

fun log2floor :: "nat \<Rightarrow> nat" where
  "log2floor n = (if n < 2 then 0 else Suc (log2floor (n div 2)))"

declare log2floor.simps [simp del]

section \<open>Zero-bit interleaving\<close>

text \<open>
  \<^verbatim>\<open>detail::ileaveZeros_naive\<close>: the loop state is \<open>(i, b_out, input, result)\<close>.
\<close>

function ileaveZeros_naive_loop :: "nat \<Rightarrow> nat \<Rightarrow> nat \<Rightarrow> nat \<Rightarrow> u32 \<Rightarrow> u64 \<Rightarrow> u64" where
  "ileaveZeros_naive_loop bits lim i b_out input result =
     (if i < lim
      then ileaveZeros_naive_loop bits lim (i + 1) (b_out + (bits + 1)) (drop_bit 1 input)
             (result OR push_bit b_out (ucast (input AND 1)))
      else result)"
  by pat_completeness auto
termination
  by (relation "measure (\<lambda>(bits, lim, i, b_out, input, result). lim - i)") auto

declare ileaveZeros_naive_loop.simps [simp del]

definition ileaveZeros_naive :: "u32 \<Rightarrow> nat \<Rightarrow> u64" where
  "ileaveZeros_naive input bits =
     (let lim = min 32 (divCeil 64 (bits + 1))
      in ileaveZeros_naive_loop bits lim 0 0 input 0)"

text \<open>
  The stride of \<^verbatim>\<open>detail::ileaveZeros_naive\<close> is a \<^verbatim>\<open>size_t\<close>. The function above takes it as
  a natural number, which is what the source computes for every stride from 0 to
  \<open>2 ^ 64 - 2\<close>: there \<^verbatim>\<open>bits + 1\<close> is the successor, and \<open>b_out\<close> stays below \<open>2 ^ 64\<close>. At the
  last value of the type \<^verbatim>\<open>bits + 1\<close> wraps to 0 and the first statement of the function
  calls \<^verbatim>\<open>divCeil<size_t>(64, 0)\<close>, a division by zero, so the call has no result. The entry
  below reads the stride as the 64-bit word the caller passes and returns \<open>None\<close> there.
\<close>

definition ileaveZeros_naive_size_t :: "u32 \<Rightarrow> 64 word \<Rightarrow> u64 option" where
  "ileaveZeros_naive_size_t input bits =
     (let divisor = bits + 1
      in if divisor = 0 then None
         else Some (ileaveZeros_naive input (unat bits)))"

text \<open>
  \<^verbatim>\<open>detail::duplBits_naive\<close>: the inner loop returns the counter \<open>b_out\<close> it shares with the
  outer loop together with the accumulated result.
\<close>

function duplBits_inner :: "u64 \<Rightarrow> nat \<Rightarrow> nat \<Rightarrow> nat \<Rightarrow> nat \<Rightarrow> u64 \<Rightarrow> nat \<times> u64" where
  "duplBits_inner input n i j b_out result =
     (if j < n
      then duplBits_inner input n i (j + 1) (b_out + 1)
             (result OR push_bit b_out (drop_bit i input AND 1))
      else (b_out, result))"
  by pat_completeness auto
termination
  by (relation "measure (\<lambda>(input, n, i, j, b_out, result). n - j)") auto

declare duplBits_inner.simps [simp del]

function duplBits_outer :: "u64 \<Rightarrow> nat \<Rightarrow> nat \<Rightarrow> nat \<Rightarrow> nat \<Rightarrow> u64 \<Rightarrow> u64" where
  "duplBits_outer input n lim i b_out result =
     (if i < lim
      then (case duplBits_inner input n i 0 b_out result of
              (b_out', result') \<Rightarrow> duplBits_outer input n lim (i + 1) b_out' result')
      else result)"
  by pat_completeness auto
termination
  by (relation "measure (\<lambda>(input, n, lim, i, b_out, result). lim - i)") auto

declare duplBits_outer.simps [simp del]

definition duplBits_naive :: "u64 \<Rightarrow> nat \<Rightarrow> u64" where
  "duplBits_naive input out_bits_per_in_bits =
     (if out_bits_per_in_bits = 0 then 0
      else duplBits_outer input out_bits_per_in_bits (divCeil 64 out_bits_per_in_bits) 0 0 0)"

text \<open>
  \<^verbatim>\<open>ileaveZeros_const<BITS>\<close>. The table \<^verbatim>\<open>MASKS\<close> has five entries. The loop counter is an
  \<^verbatim>\<open>int\<close> running from \<^verbatim>\<open>start\<close> down to 0 (the source stops at \<^verbatim>\<open>i != -1\<close>; \<^verbatim>\<open>start\<close> is at
  least \<open>-1\<close> for every stride below 128, and between 1 and 4 for the strides in use).
\<close>

definition MASKS_ileave :: "nat \<Rightarrow> u64 list" where
  "MASKS_ileave BITS =
     [duplBits_naive (ileaveZeros_naive (NOT 0) BITS) 1,
      duplBits_naive (ileaveZeros_naive (NOT 0) BITS) 2,
      duplBits_naive (ileaveZeros_naive (NOT 0) BITS) 4,
      duplBits_naive (ileaveZeros_naive (NOT 0) BITS) 8,
      duplBits_naive (ileaveZeros_naive (NOT 0) BITS) 16]"

function ileaveZeros_const_loop :: "nat \<Rightarrow> int \<Rightarrow> u64 \<Rightarrow> u64" where
  "ileaveZeros_const_loop BITS i n =
     (if 0 \<le> i
      then (let shift = BITS * 2 ^ nat i;
                n1 = n OR push_bit shift n;
                n2 = n1 AND MASKS_ileave BITS ! nat i
            in ileaveZeros_const_loop BITS (i - 1) n2)
      else n)"
  by pat_completeness auto
termination
  by (relation "measure (\<lambda>(BITS, i, n). nat (i + 1))") auto

declare ileaveZeros_const_loop.simps [simp del]

definition ileaveZeros_const :: "nat \<Rightarrow> u32 \<Rightarrow> u64" where
  "ileaveZeros_const BITS input =
     (if BITS = 0 then ucast input
      else (let start = 4 - int (log2floor (BITS div 2))
            in ileaveZeros_const_loop BITS start (ucast input)))"

section \<open>Bitwise de-interleaving\<close>

text \<open>
  \<^verbatim>\<open>remIleavedBits_const<BITS>\<close>. The table has six entries; the loop reads \<^verbatim>\<open>MASKS[i + 1]\<close>
  for \<open>i\<close> below \<^verbatim>\<open>iterations\<close>, which is at most 5 (and the subtraction that computes it
  stays above zero for every stride below 128).
\<close>

definition MASKS_rem :: "nat \<Rightarrow> u64 list" where
  "MASKS_rem BITS =
     [duplBits_naive (ileaveZeros_naive (NOT 0) BITS) 1,
      duplBits_naive (ileaveZeros_naive (NOT 0) BITS) 2,
      duplBits_naive (ileaveZeros_naive (NOT 0) BITS) 4,
      duplBits_naive (ileaveZeros_naive (NOT 0) BITS) 8,
      duplBits_naive (ileaveZeros_naive (NOT 0) BITS) 16,
      duplBits_naive (ileaveZeros_naive (NOT 0) BITS) 32]"

function remIleavedBits_const_loop :: "nat \<Rightarrow> nat \<Rightarrow> nat \<Rightarrow> u64 \<Rightarrow> u64" where
  "remIleavedBits_const_loop BITS iterations i input =
     (if i < iterations
      then (let rshift = 2 ^ i * BITS;
                input1 = input OR drop_bit rshift input;
                input2 = input1 AND MASKS_rem BITS ! (i + 1)
            in remIleavedBits_const_loop BITS iterations (i + 1) input2)
      else input)"
  by pat_completeness auto
termination
  by (relation "measure (\<lambda>(BITS, iterations, i, input). iterations - i)") auto

declare remIleavedBits_const_loop.simps [simp del]

definition remIleavedBits_const :: "nat \<Rightarrow> u64 \<Rightarrow> u64" where
  "remIleavedBits_const BITS input =
     (if BITS = 0 then input
      else (let iterations = 5 - log2floor (BITS div 2)
            in remIleavedBits_const_loop BITS iterations 0 (input AND MASKS_rem BITS ! 0)))"

section \<open>Number interleaving\<close>

text \<open>
  \<^verbatim>\<open>ileave2\<close>: the masks are written out in the source. The outer loop visits
  \<^verbatim>\<open>nums = {&hi, &lo}\<close>; the inner counter is a \<^verbatim>\<open>size_t\<close> running from 4 down to 0 and
  stopping when it wraps, modelled as an integer that stops below 0.
\<close>

definition MASKS_ileave2 :: "u64 list" where
  "MASKS_ileave2 =
     [0x5555555555555555,
      0x3333333333333333,
      0x0F0F0F0F0F0F0F0F,
      0x00FF00FF00FF00FF,
      0x0000FFFF0000FFFF]"

function ileave2_inner :: "int \<Rightarrow> u64 \<Rightarrow> u64" where
  "ileave2_inner i n =
     (if 0 \<le> i
      then (let n1 = n OR push_bit (2 ^ nat i) n;
                n2 = n1 AND MASKS_ileave2 ! nat i
            in ileave2_inner (i - 1) n2)
      else n)"
  by pat_completeness auto
termination
  by (relation "measure (\<lambda>(i, n). nat (i + 1))") auto

declare ileave2_inner.simps [simp del]

function ileave2_outer :: "u32 list \<Rightarrow> nat \<Rightarrow> u64 \<Rightarrow> u64" where
  "ileave2_outer nums i result =
     (if i < 2
      then (let n = ileave2_inner 4 (ucast (nums ! i))
            in ileave2_outer nums (i + 1) (result OR push_bit (1 - i) n))
      else result)"
  by pat_completeness auto
termination
  by (relation "measure (\<lambda>(nums, i, result). 2 - i)") auto

declare ileave2_outer.simps [simp del]

definition ileave2 :: "u32 \<Rightarrow> u32 \<Rightarrow> u64" where
  "ileave2 hi lo = ileave2_outer [hi, lo] 0 0"

definition ileave3 :: "u32 \<Rightarrow> u32 \<Rightarrow> u32 \<Rightarrow> u64" where
  "ileave3 x y z =
     push_bit 2 (ileaveZeros_const 2 x) OR push_bit 1 (ileaveZeros_const 2 y)
       OR ileaveZeros_const 2 z"

section \<open>Number de-interleaving\<close>

text \<open>\<^verbatim>\<open>dileave3\<close> fills \<^verbatim>\<open>out[0]\<close>, \<^verbatim>\<open>out[1]\<close>, \<^verbatim>\<open>out[2]\<close>; the model returns the triple.\<close>

definition dileave3 :: "u64 \<Rightarrow> u32 \<times> u32 \<times> u32" where
  "dileave3 n =
     (ucast (remIleavedBits_const 2 (drop_bit 2 n)),
      ucast (remIleavedBits_const 2 (drop_bit 1 n)),
      ucast (remIleavedBits_const 2 (drop_bit 0 n)))"

section \<open>Byte interleaving and de-interleaving\<close>

function ileaveBytes_const_loop :: "nat \<Rightarrow> nat \<Rightarrow> u64 \<Rightarrow> u64 \<Rightarrow> u64" where
  "ileaveBytes_const_loop COUNT i bytes result =
     (if i < COUNT
      then ileaveBytes_const_loop COUNT (i + 1) (drop_bit 8 bytes)
             (result OR push_bit i (ileaveZeros_const (COUNT - 1) (ucast (bytes AND 0xff))))
      else result)"
  by pat_completeness auto
termination
  by (relation "measure (\<lambda>(COUNT, i, bytes, result). COUNT - i)") auto

declare ileaveBytes_const_loop.simps [simp del]

definition ileaveBytes_const :: "nat \<Rightarrow> u64 \<Rightarrow> u64" where
  "ileaveBytes_const COUNT bytes =
     (if COUNT \<noteq> 0 then ileaveBytes_const_loop COUNT 0 bytes 0 else 0)"

function dileaveBytes_const_loop :: "nat \<Rightarrow> nat \<Rightarrow> u64 \<Rightarrow> u64 \<Rightarrow> u64" where
  "dileaveBytes_const_loop COUNT i ileaved result =
     (if i < COUNT
      then dileaveBytes_const_loop COUNT (i + 1) ileaved
             (push_bit 8 (result OR remIleavedBits_const (COUNT - 1) (drop_bit i ileaved)))
      else result)"
  by pat_completeness auto
termination
  by (relation "measure (\<lambda>(COUNT, i, ileaved, result). COUNT - i)") auto

declare dileaveBytes_const_loop.simps [simp del]

definition dileaveBytes_const :: "nat \<Rightarrow> u64 \<Rightarrow> u64" where
  "dileaveBytes_const COUNT ileaved =
     (if COUNT \<noteq> 0 then dileaveBytes_const_loop COUNT 0 ileaved 0 else 0)"

text \<open>
  Modelled from the spec: \<^verbatim>\<open>assert.hpp\<close>, which defines \<^verbatim>\<open>VXIO_DEBUG_ASSERT_LE\<close> and
  \<^verbatim>\<open>VXIO_ASSUME\<close>, is not part of the sources at hand. By section 7 of the spec a debug
  build fails fast through an assertion that aborts execution, and an optimized build
  assumes the precondition and leaves its violation undefined.
\<close>

datatype build = Debug | Optimized

datatype 'a outcome = Returned 'a | AssertionFailed | Undefined

definition VXIO_DEBUG_ASSERT_LE :: "build \<Rightarrow> nat \<Rightarrow> nat \<Rightarrow> bool" where
  "VXIO_DEBUG_ASSERT_LE b x y = (if b = Debug then x \<le> y else True)"

text \<open>
  The runtime dispatch: the \<^verbatim>\<open>switch\<close> has the nine cases 0 to 8, and case \<open>k\<close> calls the
  instantiation \<^verbatim>\<open>COUNT = k\<close>.
\<close>

definition ileaveBytes_jmp :: "build \<Rightarrow> u64 \<Rightarrow> nat \<Rightarrow> u64 outcome" where
  "ileaveBytes_jmp b bytes count =
     (if \<not> VXIO_DEBUG_ASSERT_LE b count 8 then AssertionFailed
      else if \<not> count \<le> 8 then Undefined
      else Returned (ileaveBytes_const count bytes))"

definition ileaveBytes :: "build \<Rightarrow> u64 \<Rightarrow> nat \<Rightarrow> u64 outcome" where
  "ileaveBytes b bytes count = ileaveBytes_jmp b bytes count"

definition dileaveBytes_jmp :: "build \<Rightarrow> u64 \<Rightarrow> nat \<Rightarrow> u64 outcome" where
  "dileaveBytes_jmp b bytes count =
     (if \<not> VXIO_DEBUG_ASSERT_LE b count 8 then AssertionFailed
      else if \<not> count \<le> 8 then Undefined
      else Returned (dileaveBytes_const count bytes))"

definition dileave_bytes :: "build \<Rightarrow> u64 \<Rightarrow> nat \<Rightarrow> u64 outcome" where
  "dileave_bytes b bytes count = dileaveBytes_jmp b bytes count"

section \<open>Proof devices\<close>

text \<open>
  Every round of the fast paths is "shift, OR, mask", which distributes over OR. A value
  is the OR of its set bits, so a fast path is determined by what it does to the words
  with a single bit set.
\<close>

definition single :: "nat \<Rightarrow> u64" where
  "single a = 2 ^ a"

definition shl_or_mask :: "nat \<Rightarrow> u64 \<Rightarrow> u64 \<Rightarrow> u64" where
  "shl_or_mask s M n = (n OR push_bit s n) AND M"

definition shr_or_mask :: "nat \<Rightarrow> u64 \<Rightarrow> u64 \<Rightarrow> u64" where
  "shr_or_mask s M n = (n OR drop_bit s n) AND M"

fun all_below :: "nat \<Rightarrow> (nat \<Rightarrow> bool) \<Rightarrow> bool" where
  "all_below 0 P = True"
| "all_below (Suc n) P = (P n \<and> all_below n P)"

text \<open>Byte lane \<open>d\<close> of a packed word, as the byte loops pass it on.\<close>

definition lane :: "u64 \<Rightarrow> nat \<Rightarrow> u32" where
  "lane bytes d = ucast (drop_bit (8 * d) bytes AND 0xff)"

text \<open>The number of input bits that have a place in the 64-bit output.\<close>

definition kept_bits :: "nat \<Rightarrow> nat" where
  "kept_bits BITS = min 32 (divCeil 64 (BITS + 1))"

text \<open>
  What the rounds of \<open>ileaveZeros_const\<close> do to a single bit: bit \<open>k\<close> moves to position
  \<open>k * (BITS + 1)\<close> when that is inside the output, and disappears otherwise.
\<close>

definition ileave_singles :: "nat \<Rightarrow> bool" where
  "ileave_singles BITS \<longleftrightarrow>
     all_below 32 (\<lambda>k. ileaveZeros_const_loop BITS (4 - int (log2floor (BITS div 2))) (single k)
       = (if k < kept_bits BITS then single (k * (BITS + 1)) else 0))"

text \<open>
  What \<open>remIleavedBits_const\<close> does to a single bit: bit \<open>a\<close> moves to position
  \<open>a div (BITS + 1)\<close> when \<open>a\<close> is a multiple of \<open>BITS + 1\<close> that an input bit can reach, and
  disappears otherwise.
\<close>

definition rem_singles :: "nat \<Rightarrow> bool" where
  "rem_singles BITS \<longleftrightarrow>
     all_below 64 (\<lambda>a. remIleavedBits_const BITS (single a)
       = (if a mod (BITS + 1) = 0 \<and> a div (BITS + 1) < kept_bits BITS
          then single (a div (BITS + 1)) else 0))"

section \<open>The naive interleaver, bit by bit\<close>

lemma divCeil_less_iff:
  assumes "0 < s"
  shows "k < divCeil 64 s \<longleftrightarrow> k * s < 64"
proof -
  have "k < (63 + s) div s \<longleftrightarrow> Suc k \<le> (63 + s) div s"
    by (simp add: Suc_le_eq)
  also have "\<dots> \<longleftrightarrow> Suc k * s \<le> 63 + s"
    using assms by (rule less_eq_div_iff_mult_less_eq)
  also have "\<dots> \<longleftrightarrow> k * s < 64"
    by auto
  finally show ?thesis
    using assms by (simp add: divCeil_def)
qed

lemma bit_and_1_ucast:
  "bit (push_bit b (ucast ((input :: u32) AND 1) :: u64)) n \<longleftrightarrow> n = b \<and> n < 64 \<and> bit input 0"
  by (auto simp add: bit_simps bit_1_iff)

lemma bit_ileaveZeros_naive_loop:
  "bit (ileaveZeros_naive_loop bits lim i b_out input result) n \<longleftrightarrow>
     bit result n \<or> (\<exists>j. i + j < lim \<and> n = b_out + j * (bits + 1) \<and> n < 64 \<and> bit input j)"
proof (induction bits lim i b_out input result rule: ileaveZeros_naive_loop.induct)
  case (1 bits lim i b_out input result)
  show ?case
  proof (cases "i < lim")
    case False
    then show ?thesis
      by (simp add: ileaveZeros_naive_loop.simps [of bits lim i])
  next
    case True
    have "(\<exists>j. i + j < lim \<and> n = b_out + j * (bits + 1) \<and> n < 64 \<and> bit input j) \<longleftrightarrow>
          (n = b_out \<and> n < 64 \<and> bit input 0) \<or>
          (\<exists>j. i + 1 + j < lim \<and> n = b_out + (bits + 1) + j * (bits + 1) \<and> n < 64
             \<and> bit input (Suc j))"
      (is "?L \<longleftrightarrow> ?A \<or> ?B")
    proof
      assume ?L
      then obtain j where j: "i + j < lim" "n = b_out + j * (bits + 1)" "n < 64" "bit input j"
        by blast
      show "?A \<or> ?B"
      proof (cases j)
        case 0
        with j show ?thesis by simp
      next
        case (Suc j')
        with j have "i + 1 + j' < lim \<and> n = b_out + (bits + 1) + j' * (bits + 1) \<and> n < 64
            \<and> bit input (Suc j')"
          by simp
        then show ?thesis by blast
      qed
    next
      assume "?A \<or> ?B"
      then show ?L
      proof
        assume ?A
        with True have "i + 0 < lim \<and> n = b_out + 0 * (bits + 1) \<and> n < 64 \<and> bit input 0"
          by simp
        then show ?L by blast
      next
        assume ?B
        then obtain j where "i + 1 + j < lim" "n = b_out + (bits + 1) + j * (bits + 1)"
          "n < 64" "bit input (Suc j)"
          by blast
        then have "i + Suc j < lim \<and> n = b_out + Suc j * (bits + 1) \<and> n < 64 \<and> bit input (Suc j)"
          by simp
        then show ?L by blast
      qed
    qed
    with True 1 [OF True] show ?thesis
      by (simp add: ileaveZeros_naive_loop.simps [of bits lim i] bit_or_iff bit_and_1_ucast
          bit_drop_bit_eq disj_ac)
  qed
qed

lemma bit_ileaveZeros_naive:
  "bit (ileaveZeros_naive input bits) n \<longleftrightarrow>
     (\<exists>k < min 32 (divCeil 64 (bits + 1)). n = k * (bits + 1) \<and> n < 64 \<and> bit input k)"
  by (simp add: ileaveZeros_naive_def bit_ileaveZeros_naive_loop)

lemma ileaveZeros_naive_identity: "ileaveZeros_naive input 0 = ucast input"
proof (rule bit_eqI)
  fix n
  have "bit input n \<Longrightarrow> n < 32"
    using bit_imp_le_length [of input n] by simp
  then show "bit (ileaveZeros_naive input 0) n \<longleftrightarrow> bit (ucast input :: u64) n"
    by (auto simp add: bit_ileaveZeros_naive bit_ucast_iff divCeil_def)
qed

lemma size_t_successor:
  "unat bits < 2 ^ 64 - 1 \<Longrightarrow> bits + 1 \<noteq> 0" for bits :: "64 word"
proof
  assume less: "unat bits < 2 ^ 64 - 1" and "bits + 1 = 0"
  then have "bits = - 1"
    by (simp add: eq_neg_iff_add_eq_0)
  then have "unat bits = 2 ^ 64 - 1"
    by (simp add: unsigned_minus_1_eq_mask mask_eq_exp_minus_1)
  with less show False
    by simp
qed

text \<open>
  C6, as the spec states it, fails at the last stride of the type: for
  \<open>bits = 2 ^ 64 - 1\<close> the sum \<^verbatim>\<open>bits + 1\<close> wraps to 0, the loop bound is a division by zero,
  and the call has no output whose bit 0 could be bit 0 of the input.
\<close>

theorem ileaveZeros_naive_last_stride_counterexample:
  "ileaveZeros_naive_size_t 1 0xFFFFFFFFFFFFFFFF = None"
  by (simp add: ileaveZeros_naive_size_t_def)

text \<open>
  C6, amended. For every 32-bit input and every stride \<open>bits\<close> below \<open>2 ^ 64 - 1\<close>, the call
  returns a value whose bit \<open>k * (bits + 1)\<close> is bit \<open>k\<close> of the input for every \<open>k\<close> below
  \<open>min 32 (divCeil 64 (bits + 1))\<close>, and no other output bit is set; an input bit is below
  that bound exactly when its target position is below 64, so the bits that would land
  outside the output are dropped; and \<open>bits = 0\<close> gives the input unchanged.
\<close>

theorem ileaveZeros_naive_places:
  "unat bits < 2 ^ 64 - 1 \<Longrightarrow>
     (\<exists>r. ileaveZeros_naive_size_t input bits = Some r
        \<and> (\<forall>n. bit r n \<longleftrightarrow>
              (\<exists>k < min 32 (divCeil 64 (unat bits + 1)). n = k * (unat bits + 1) \<and> bit input k)))
     \<and> (\<forall>k. k < divCeil 64 (unat bits + 1) \<longleftrightarrow> k * (unat bits + 1) < 64)
     \<and> ileaveZeros_naive_size_t input 0 = Some (ucast input)"
proof (intro conjI allI)
  assume "unat bits < 2 ^ 64 - 1"
  then have call: "ileaveZeros_naive_size_t input bits = Some (ileaveZeros_naive input (unat bits))"
    using size_t_successor [of bits] by (simp add: ileaveZeros_naive_size_t_def)
  have "bit (ileaveZeros_naive input (unat bits)) n \<longleftrightarrow>
      (\<exists>k < min 32 (divCeil 64 (unat bits + 1)). n = k * (unat bits + 1) \<and> bit input k)" for n
    unfolding bit_ileaveZeros_naive
    using divCeil_less_iff [of "unat bits + 1"] by auto
  with call show "\<exists>r. ileaveZeros_naive_size_t input bits = Some r
      \<and> (\<forall>n. bit r n \<longleftrightarrow>
            (\<exists>k < min 32 (divCeil 64 (unat bits + 1)). n = k * (unat bits + 1) \<and> bit input k))"
    by blast
next
  fix k
  show "k < divCeil 64 (unat bits + 1) \<longleftrightarrow> k * (unat bits + 1) < 64"
    by (rule divCeil_less_iff) simp
next
  show "ileaveZeros_naive_size_t input 0 = Some (ucast input)"
    by (simp add: ileaveZeros_naive_size_t_def ileaveZeros_naive_identity)
qed

theorem ileaveZeros_naive_places_witness:
  "unat (2 :: 64 word) < 2 ^ 64 - 1
   \<and> (\<exists>r. ileaveZeros_naive_size_t 0xC0000003 2 = Some r
        \<and> (\<forall>n. bit r n \<longleftrightarrow>
              (\<exists>k < min 32 (divCeil 64 (unat (2 :: 64 word) + 1)).
                 n = k * (unat (2 :: 64 word) + 1) \<and> bit (0xC0000003 :: u32) k)))
   \<and> (\<forall>k. k < divCeil 64 (unat (2 :: 64 word) + 1) \<longleftrightarrow> k * (unat (2 :: 64 word) + 1) < 64)
   \<and> ileaveZeros_naive_size_t 0xC0000003 0 = Some (ucast (0xC0000003 :: u32))"
proof -
  have stride: "unat (2 :: 64 word) < 2 ^ 64 - 1"
    by simp
  show ?thesis
    by (rule conjI [OF stride ileaveZeros_naive_places [OF stride]])
qed

section \<open>The mask tables, bit by bit\<close>

lemma bit_push_drop_1:
  "bit (push_bit b (drop_bit i (input :: u64) AND 1)) m \<longleftrightarrow> m = b \<and> m < 64 \<and> bit input i"
  by (auto simp add: bit_simps bit_1_iff)

lemma duplBits_inner_eq:
  "\<exists>r. duplBits_inner input n i j b_out result = (b_out + (n - j), r) \<and>
     (\<forall>m. bit r m \<longleftrightarrow>
        bit result m \<or> (b_out \<le> m \<and> m < b_out + (n - j) \<and> m < 64 \<and> bit input i))"
proof (induction input n i j b_out result rule: duplBits_inner.induct)
  case (1 input n i j b_out result)
  show ?case
  proof (cases "j < n")
    case False
    then show ?thesis
      by (auto simp add: duplBits_inner.simps [of input n i j])
  next
    case True
    from 1 [OF True] obtain r where
      r: "duplBits_inner input n i (j + 1) (b_out + 1)
            (result OR push_bit b_out (drop_bit i input AND 1)) = (b_out + 1 + (n - (j + 1)), r)"
      and b: "\<And>m. bit r m \<longleftrightarrow>
            bit (result OR push_bit b_out (drop_bit i input AND 1)) m \<or>
            (b_out + 1 \<le> m \<and> m < b_out + 1 + (n - (j + 1)) \<and> m < 64 \<and> bit input i)"
      by blast
    from True r have "duplBits_inner input n i j b_out result = (b_out + (n - j), r)"
      by (simp add: duplBits_inner.simps [of input n i j])
    moreover have "bit r m \<longleftrightarrow>
        bit result m \<or> (b_out \<le> m \<and> m < b_out + (n - j) \<and> m < 64 \<and> bit input i)" for m
      unfolding b bit_or_iff bit_push_drop_1 using True by auto
    ultimately show ?thesis by blast
  qed
qed

lemma bit_duplBits_outer:
  "0 < n \<Longrightarrow> bit (duplBits_outer input n lim i b_out result) m \<longleftrightarrow>
     bit result m \<or>
     (b_out \<le> m \<and> m < 64 \<and> i + (m - b_out) div n < lim \<and> bit input (i + (m - b_out) div n))"
proof (induction input n lim i b_out result rule: duplBits_outer.induct)
  case (1 input n lim i b_out result)
  show ?case
  proof (cases "i < lim")
    case False
    then show ?thesis
      by (simp add: duplBits_outer.simps [of input n lim i])
  next
    case True
    from duplBits_inner_eq [of input n i 0 b_out result] obtain r where
      r: "duplBits_inner input n i 0 b_out result = (b_out + n, r)"
      and b: "\<And>m. bit r m \<longleftrightarrow>
            bit result m \<or> (b_out \<le> m \<and> m < b_out + n \<and> m < 64 \<and> bit input i)"
      by auto
    have step: "duplBits_outer input n lim i b_out result =
        duplBits_outer input n lim (i + 1) (b_out + n) r"
      using True r by (simp add: duplBits_outer.simps [of input n lim i])
    have IH: "bit (duplBits_outer input n lim (i + 1) (b_out + n) r) m \<longleftrightarrow>
      bit r m \<or> (b_out + n \<le> m \<and> m < 64 \<and> i + 1 + (m - (b_out + n)) div n < lim
         \<and> bit input (i + 1 + (m - (b_out + n)) div n))"
      using "1.IH" [OF True r [symmetric] \<open>0 < n\<close>] by simp
    have lo: "(m - b_out) div n = 0" if "b_out \<le> m" "m < b_out + n"
      using that by simp
    have hi: "(m - b_out) div n = 1 + (m - (b_out + n)) div n" if "b_out + n \<le> m"
    proof -
      from that have "m - b_out = (m - (b_out + n)) + n" by simp
      then show ?thesis using \<open>0 < n\<close> by (metis add.commute div_add_self2 not_gr_zero)
    qed
    show ?thesis
    proof (cases "b_out + n \<le> m")
      case hiT: True
      then show ?thesis
        unfolding step IH b using True by (auto simp add: hi)
    next
      case hiF: False
      then show ?thesis
        unfolding step IH b using True by (auto simp add: lo)
    qed
  qed
qed

lemma bit_duplBits_naive:
  "bit (duplBits_naive input n) m \<longleftrightarrow>
     0 < n \<and> m < 64 \<and> m div n < divCeil 64 n \<and> bit input (m div n)"
  by (simp add: duplBits_naive_def bit_duplBits_outer)

lemma bit_ones_ileaved:
  "bit (ileaveZeros_naive (- 1) bits) c \<longleftrightarrow>
     c < 64 \<and> c mod (bits + 1) = 0 \<and> c div (bits + 1) < min 32 (divCeil 64 (bits + 1))"
  (is "?L \<longleftrightarrow> ?R")
proof
  assume ?L
  then obtain k where k: "k < min 32 (divCeil 64 (bits + 1))" "c = k * (bits + 1)" "c < 64"
    unfolding bit_ileaveZeros_naive by blast
  have "k * (bits + 1) mod (bits + 1) = 0"
    by (rule mod_mult_self2_is_0)
  moreover have "k * (bits + 1) div (bits + 1) = k"
    by (rule nonzero_mult_div_cancel_right) simp
  ultimately show ?R using k by simp
next
  assume R: ?R
  let ?k = "c div (bits + 1)"
  from R have "(bits + 1) dvd c"
    by (simp add: mod_0_imp_dvd)
  then have c: "c = ?k * (bits + 1)"
    by (simp only: dvd_div_mult_self)
  from R have "?k < 32" by simp
  then have "bit (- 1 :: u32) ?k" by (simp add: bit_simps)
  with R c show ?L
    unfolding bit_ileaveZeros_naive by blast
qed

section \<open>Rounds that distribute over OR\<close>

lemma all_below_iff: "all_below n P \<longleftrightarrow> (\<forall>k<n. P k)"
  by (induction n) (auto simp add: less_Suc_eq)

lemma all_below_numeral:
  "all_below (numeral v) P = (P (pred_numeral v) \<and> all_below (pred_numeral v) P)"
  by (simp add: numeral_eq_Suc)

lemma take_bit_Suc_or:
  "take_bit (Suc m) (x :: 'a::len word) = take_bit m x OR (if bit x m then 2 ^ m else 0)"
  by (rule bit_eqI) (auto simp add: bit_simps less_Suc_eq)

lemma or_hom_bits_take:
  fixes f :: "'a::len word \<Rightarrow> 'b::len word"
  assumes zero: "f 0 = 0" and hom: "\<And>a b. f (a OR b) = f a OR f b"
  shows "bit (f (take_bit m x)) n \<longleftrightarrow> (\<exists>k<m. bit x k \<and> bit (f (2 ^ k)) n)"
proof (induction m)
  case 0
  show ?case by (simp add: zero)
next
  case (Suc m)
  show ?case
    by (cases "bit x m") (auto simp add: take_bit_Suc_or hom bit_or_iff Suc zero less_Suc_eq)
qed

lemma or_hom_bits:
  fixes f :: "u64 \<Rightarrow> u64"
  assumes zero: "f 0 = 0" and hom: "\<And>a b. f (a OR b) = f a OR f b"
  shows "bit (f x) n \<longleftrightarrow> (\<exists>k<64. bit x k \<and> bit (f (single k)) n)"
proof -
  have "take_bit 64 x = x"
    by (rule take_bit_word_eq_self) simp
  with or_hom_bits_take [of f 64 x n, OF zero hom] show ?thesis
    by (simp add: single_def)
qed

lemma bit_single: "bit (single a) n \<longleftrightarrow> n = a \<and> a < 64"
  by (auto simp add: single_def bit_simps)

lemma single_eq_iff: "single a = single b \<longleftrightarrow> a = b \<or> (64 \<le> a \<and> 64 \<le> b)"
proof
  assume eq: "single a = single b"
  show "a = b \<or> (64 \<le> a \<and> 64 \<le> b)"
  proof (rule ccontr)
    assume "\<not> ?thesis"
    then consider "a \<noteq> b" "a < 64" | "a \<noteq> b" "b < 64" by force
    then show False
    proof cases
      case 1
      then have "bit (single a) a" "\<not> bit (single b) a"
        by (simp_all add: bit_single)
      with eq show False by simp
    next
      case 2
      then have "bit (single b) b" "\<not> bit (single a) b"
        by (simp_all add: bit_single)
      with eq show False by simp
    qed
  qed
next
  assume "a = b \<or> (64 \<le> a \<and> 64 \<le> b)"
  then show "single a = single b"
    by (auto intro!: bit_eqI simp add: bit_single)
qed

lemma shl_or_mask_or:
  "shl_or_mask s M (a OR b) = shl_or_mask s M a OR shl_or_mask s M b"
  unfolding shl_or_mask_def by (rule bit_eqI) (auto simp add: bit_simps)

lemma shl_or_mask_zero: "shl_or_mask s M 0 = 0"
  by (simp add: shl_or_mask_def)

lemma shl_or_mask_single:
  "shl_or_mask s M (single a) =
     (if bit M a then single a else 0) OR (if bit M (a + s) then single (a + s) else 0)"
  unfolding shl_or_mask_def by (rule bit_eqI) (auto simp add: single_def bit_simps)

lemma shr_or_mask_or:
  "shr_or_mask s M (a OR b) = shr_or_mask s M a OR shr_or_mask s M b"
  unfolding shr_or_mask_def by (rule bit_eqI) (auto simp add: bit_simps)

lemma shr_or_mask_zero: "shr_or_mask s M 0 = 0"
  by (simp add: shr_or_mask_def)

lemma shr_or_mask_single:
  "shr_or_mask s M (single a) =
     (if bit M a then single a else 0)
       OR (if s \<le> a \<and> a < 64 \<and> bit M (a - s) then single (a - s) else 0)"
  unfolding shr_or_mask_def by (rule bit_eqI) (auto simp add: single_def bit_simps)

lemma and_mask_single: "single a AND M = (if bit M a then single a else 0)"
  by (rule bit_eqI) (auto simp add: single_def bit_simps)

section \<open>Shift amounts of the fast paths\<close>

text \<open>
  A shift by 64 or more is undefined in the source and gives 0 here. For the strides the
  library instantiates, every shift of the two fast paths stays below 64, so \<open>push_bit\<close>
  and \<open>drop_bit\<close> are the shifts of the source.
\<close>

lemma ileave_shift_in_range:
  assumes "BITS \<in> {1, 2, 3, 4, 5, 6, 7, 8, 16}" and "0 \<le> i"
    and "i \<le> 4 - int (log2floor (BITS div 2))"
  shows "BITS * 2 ^ nat i < 64"
proof -
  let ?start = "4 - int (log2floor (BITS div 2))"
  from assms have "(2 :: nat) ^ nat i \<le> 2 ^ nat ?start"
    by (intro power_increasing) simp_all
  then have "BITS * 2 ^ nat i \<le> BITS * 2 ^ nat ?start"
    by (rule mult_left_mono) simp
  moreover from assms(1) have "BITS * 2 ^ nat ?start < 64"
    by (elim insertE emptyE) (simp_all add: log2floor.simps)
  ultimately show ?thesis
    by (rule le_less_trans)
qed

lemma rem_shift_in_range:
  assumes "BITS \<in> {1, 2, 3, 4, 5, 6, 7, 8, 16}" and "i < 5 - log2floor (BITS div 2)"
  shows "2 ^ i * BITS < 64"
proof -
  let ?it = "5 - log2floor (BITS div 2)"
  from assms have "(2 :: nat) ^ i \<le> 2 ^ (?it - 1)"
    by (intro power_increasing) simp_all
  then have "2 ^ i * BITS \<le> 2 ^ (?it - 1) * BITS"
    by (rule mult_right_mono) simp
  moreover from assms(1) have "2 ^ (?it - 1) * BITS < 64"
    by (elim insertE emptyE) (simp_all add: log2floor.simps)
  ultimately show ?thesis
    by (rule le_less_trans)
qed

section \<open>The specialized interleaver\<close>

lemma ileaveZeros_const_loop_unfold:
  "ileaveZeros_const_loop BITS i n =
     (if 0 \<le> i
      then ileaveZeros_const_loop BITS (i - 1)
             (shl_or_mask (BITS * 2 ^ nat i) (MASKS_ileave BITS ! nat i) n)
      else n)"
  by (simp add: ileaveZeros_const_loop.simps [of BITS i n] shl_or_mask_def)

lemma ileaveZeros_const_loop_zero: "ileaveZeros_const_loop BITS i 0 = 0"
proof (induction k \<equiv> "nat (i + 1)" arbitrary: i)
  case 0
  then show ?case by (simp add: ileaveZeros_const_loop_unfold [of BITS i])
next
  case (Suc k)
  then have "k = nat ((i - 1) + 1)" "0 \<le> i" by simp_all
  with Suc.hyps(1) [of "i - 1"] show ?case
    by (simp add: ileaveZeros_const_loop_unfold [of BITS i] shl_or_mask_zero)
qed

lemma ileaveZeros_const_loop_or:
  "ileaveZeros_const_loop BITS i (a OR b) =
     ileaveZeros_const_loop BITS i a OR ileaveZeros_const_loop BITS i b"
proof (induction k \<equiv> "nat (i + 1)" arbitrary: i a b)
  case 0
  then show ?case by (simp add: ileaveZeros_const_loop_unfold [of BITS i])
next
  case (Suc k)
  then have k: "k = nat ((i - 1) + 1)" and i: "0 \<le> i" by simp_all
  show ?case
    using i by (simp add: ileaveZeros_const_loop_unfold [of BITS i] shl_or_mask_or
        Suc.hyps(1) [OF k])
qed

lemmas single_eval =
  shl_or_mask_single shl_or_mask_zero shr_or_mask_single shr_or_mask_zero and_mask_single
  MASKS_ileave_def MASKS_rem_def bit_duplBits_naive bit_ones_ileaved divCeil_def kept_bits_def
  all_below_numeral single_eq_iff log2floor.simps numeral_2_eq_2 [symmetric]

lemma ileave_singles_1: "ileave_singles 1"
  unfolding ileave_singles_def by (simp add: ileaveZeros_const_loop_unfold single_eval)

lemma ileave_singles_2: "ileave_singles 2"
  unfolding ileave_singles_def by (simp add: ileaveZeros_const_loop_unfold single_eval)

lemma ileave_singles_3: "ileave_singles 3"
  unfolding ileave_singles_def by (simp add: ileaveZeros_const_loop_unfold single_eval)

lemma ileave_singles_4: "ileave_singles 4"
  unfolding ileave_singles_def by (simp add: ileaveZeros_const_loop_unfold single_eval)

lemma ileave_singles_5: "ileave_singles 5"
  unfolding ileave_singles_def by (simp add: ileaveZeros_const_loop_unfold single_eval)

lemma ileave_singles_6: "ileave_singles 6"
  unfolding ileave_singles_def by (simp add: ileaveZeros_const_loop_unfold single_eval)

lemma ileave_singles_7: "ileave_singles 7"
  unfolding ileave_singles_def by (simp add: ileaveZeros_const_loop_unfold single_eval)

lemma ileave_singles_8: "ileave_singles 8"
  unfolding ileave_singles_def by (simp add: ileaveZeros_const_loop_unfold single_eval)

lemma ileave_singles_16: "ileave_singles 16"
  unfolding ileave_singles_def by (simp add: ileaveZeros_const_loop_unfold single_eval)

lemma ileave_singles_supported:
  "BITS \<in> {1, 2, 3, 4, 5, 6, 7, 8, 16} \<Longrightarrow> ileave_singles BITS"
  using ileave_singles_1 ileave_singles_2 ileave_singles_3 ileave_singles_4 ileave_singles_5
    ileave_singles_6 ileave_singles_7 ileave_singles_8 ileave_singles_16
  by auto

lemma bit_ileaveZeros_const_loop:
  assumes "ileave_singles BITS"
  shows "bit (ileaveZeros_const_loop BITS (4 - int (log2floor (BITS div 2))) (ucast (x :: u32))) n
    \<longleftrightarrow> (\<exists>k < kept_bits BITS. n = k * (BITS + 1) \<and> n < 64 \<and> bit x k)"
proof -
  let ?f = "ileaveZeros_const_loop BITS (4 - int (log2floor (BITS div 2)))"
  have singles: "?f (single k) = (if k < kept_bits BITS then single (k * (BITS + 1)) else 0)"
    if "k < 32" for k
    using assms that by (simp add: ileave_singles_def all_below_iff)
  have x: "bit (ucast x :: u64) k \<longleftrightarrow> k < 32 \<and> bit x k" for k
    using bit_imp_le_length [of x k] by (auto simp add: bit_ucast_iff)
  have "bit (?f (ucast x)) n \<longleftrightarrow> (\<exists>k<64. bit (ucast x :: u64) k \<and> bit (?f (single k)) n)"
    by (rule or_hom_bits) (simp_all add: ileaveZeros_const_loop_zero ileaveZeros_const_loop_or)
  also have "\<dots> \<longleftrightarrow> (\<exists>k<32. bit x k \<and> bit (?f (single k)) n)"
  proof -
    have "k < 64" if "k < 32" for k :: nat
      using that by simp
    then show ?thesis
      unfolding x by blast
  qed
  also have "\<dots> \<longleftrightarrow> (\<exists>k<32. bit x k \<and> k < kept_bits BITS \<and> bit (single (k * (BITS + 1))) n)"
    using singles by (intro ex_cong) auto
  also have "\<dots> \<longleftrightarrow> (\<exists>k < kept_bits BITS. n = k * (BITS + 1) \<and> n < 64 \<and> bit x k)"
    by (auto simp add: bit_single kept_bits_def)
  finally show ?thesis .
qed

lemma ileaveZeros_const_eq_naive:
  assumes "BITS \<in> {0, 1, 2, 3, 4, 5, 6, 7, 8, 16}"
  shows "ileaveZeros_const BITS x = ileaveZeros_naive x BITS"
proof (cases "BITS = 0")
  case True
  then show ?thesis
    by (simp add: ileaveZeros_const_def ileaveZeros_naive_identity)
next
  case False
  with assms have "ileave_singles BITS"
    by (intro ileave_singles_supported) auto
  then show ?thesis
    using False
    by (intro bit_eqI)
      (simp add: ileaveZeros_const_def bit_ileaveZeros_const_loop bit_ileaveZeros_naive
        kept_bits_def)
qed

lemma bit_ileaveZeros_const:
  assumes "BITS \<in> {0, 1, 2, 3, 4, 5, 6, 7, 8, 16}"
  shows "bit (ileaveZeros_const BITS x) n \<longleftrightarrow>
    (\<exists>k < kept_bits BITS. n = k * (BITS + 1) \<and> n < 64 \<and> bit x k)"
  by (simp add: ileaveZeros_const_eq_naive [OF assms] bit_ileaveZeros_naive kept_bits_def)

text \<open>
  C4. For every stride \<open>BITS\<close> among 1, 2, 4, 8 and 16 and every 32-bit input, the
  shift-and-mask implementation \<open>ileaveZeros_const\<close> returns exactly the value of the
  reference implementation \<open>ileaveZeros_naive\<close>.
\<close>

theorem ileaveZeros_const_refines_naive:
  "BITS \<in> {1, 2, 4, 8, 16} \<Longrightarrow> ileaveZeros_const BITS x = ileaveZeros_naive x BITS"
  by (rule ileaveZeros_const_eq_naive) auto

theorem ileaveZeros_const_refines_naive_witness:
  "(2 :: nat) \<in> {1, 2, 4, 8, 16}
   \<and> ileaveZeros_const 2 0xAAAAAAAA = ileaveZeros_naive 0xAAAAAAAA 2"
  using ileaveZeros_const_refines_naive [of 2 "0xAAAAAAAA"] by simp

section \<open>The specialized remover\<close>

lemma remIleavedBits_const_loop_unfold:
  "remIleavedBits_const_loop BITS iterations i n =
     (if i < iterations
      then remIleavedBits_const_loop BITS iterations (i + 1)
             (shr_or_mask (2 ^ i * BITS) (MASKS_rem BITS ! (i + 1)) n)
      else n)"
  by (simp add: remIleavedBits_const_loop.simps [of BITS iterations i n] shr_or_mask_def)

lemma remIleavedBits_const_loop_zero: "remIleavedBits_const_loop BITS iterations i 0 = 0"
proof (induction k \<equiv> "iterations - i" arbitrary: i)
  case 0
  then show ?case by (simp add: remIleavedBits_const_loop_unfold [of BITS iterations i])
next
  case (Suc k)
  then have "k = iterations - (i + 1)" by simp
  with Suc.hyps(1) [of "i + 1"] show ?case
    by (simp add: remIleavedBits_const_loop_unfold [of BITS iterations i] shr_or_mask_zero)
qed

lemma remIleavedBits_const_loop_or:
  "remIleavedBits_const_loop BITS iterations i (a OR b) =
     remIleavedBits_const_loop BITS iterations i a OR remIleavedBits_const_loop BITS iterations i b"
proof (induction k \<equiv> "iterations - i" arbitrary: i a b)
  case 0
  then show ?case by (simp add: remIleavedBits_const_loop_unfold [of BITS iterations i])
next
  case (Suc k)
  then have k: "k = iterations - Suc i" by simp
  show ?case
    by (simp add: remIleavedBits_const_loop_unfold [of BITS iterations i] shr_or_mask_or
        Suc.hyps(1) [OF k])
qed

lemma remIleavedBits_const_zero: "remIleavedBits_const BITS 0 = 0"
  by (simp add: remIleavedBits_const_def remIleavedBits_const_loop_zero)

lemma remIleavedBits_const_or:
  "remIleavedBits_const BITS (a OR b) = remIleavedBits_const BITS a OR remIleavedBits_const BITS b"
  by (simp add: remIleavedBits_const_def Let_def remIleavedBits_const_loop_or
      bit.conj_disj_distrib2)

lemma rem_singles_1: "rem_singles 1"
  unfolding rem_singles_def
  by (simp add: remIleavedBits_const_def remIleavedBits_const_loop_unfold single_eval)

lemma rem_singles_2: "rem_singles 2"
  unfolding rem_singles_def
  by (simp add: remIleavedBits_const_def remIleavedBits_const_loop_unfold single_eval)

lemma rem_singles_4: "rem_singles 4"
  unfolding rem_singles_def
  by (simp add: remIleavedBits_const_def remIleavedBits_const_loop_unfold single_eval)

lemma rem_singles_8: "rem_singles 8"
  unfolding rem_singles_def
  by (simp add: remIleavedBits_const_def remIleavedBits_const_loop_unfold single_eval)

lemma rem_singles_16: "rem_singles 16"
  unfolding rem_singles_def
  by (simp add: remIleavedBits_const_def remIleavedBits_const_loop_unfold single_eval)

lemma kept_bits_le: "kept_bits BITS \<le> 32"
  by (simp add: kept_bits_def)

lemma kept_bits_place: "k < kept_bits BITS \<Longrightarrow> k * (BITS + 1) < 64"
  using divCeil_less_iff [of "BITS + 1" k] by (simp add: kept_bits_def)

lemma bit_remIleavedBits_const:
  assumes "BITS \<in> {1, 2, 4, 8, 16}"
  shows "bit (remIleavedBits_const BITS v) n \<longleftrightarrow> n < kept_bits BITS \<and> bit v (n * (BITS + 1))"
proof -
  let ?s = "BITS + 1"
  from assms have "rem_singles BITS"
    using rem_singles_1 rem_singles_2 rem_singles_4 rem_singles_8 rem_singles_16 by auto
  then have singles: "remIleavedBits_const BITS (single a) =
      (if a mod ?s = 0 \<and> a div ?s < kept_bits BITS then single (a div ?s) else 0)"
    if "a < 64" for a
    using that by (simp add: rem_singles_def all_below_iff)
  have "bit (remIleavedBits_const BITS v) n \<longleftrightarrow>
      (\<exists>a<64. bit v a \<and> bit (remIleavedBits_const BITS (single a)) n)"
    by (rule or_hom_bits) (simp_all add: remIleavedBits_const_zero remIleavedBits_const_or)
  also have "\<dots> \<longleftrightarrow>
      (\<exists>a<64. bit v a \<and> a mod ?s = 0 \<and> a div ?s < kept_bits BITS \<and> bit (single (a div ?s)) n)"
    using singles by (intro ex_cong) auto
  also have "\<dots> \<longleftrightarrow> n < kept_bits BITS \<and> bit v (n * ?s)"
    (is "?L \<longleftrightarrow> ?R")
  proof
    assume ?L
    then obtain a where a: "a < 64" "bit v a" "a mod ?s = 0" "a div ?s < kept_bits BITS"
      "n = a div ?s"
      by (auto simp add: bit_single)
    from a(3) have "?s dvd a"
      by (simp add: mod_0_imp_dvd)
    then have "a div ?s * ?s = a"
      by (simp only: dvd_div_mult_self)
    with a show ?R by simp
  next
    assume R: ?R
    let ?a = "n * ?s"
    have "?a < 64"
      using R kept_bits_place [of n BITS] by simp
    moreover have "?a mod ?s = 0"
      by (rule mod_mult_self2_is_0)
    moreover have d: "?a div ?s = n"
      by (rule nonzero_mult_div_cancel_right) simp
    moreover have "n < 64"
      using R kept_bits_le [of BITS] by simp
    ultimately have *: "?a < 64 \<and> bit v ?a \<and> ?a mod ?s = 0 \<and> ?a div ?s < kept_bits BITS
        \<and> bit (single (?a div ?s)) n"
      using R by (simp add: bit_single)
    show ?L
      by (rule exI [of _ ?a]) (rule *)
  qed
  finally show ?thesis .
qed

lemma take_bit_eq_self_unat:
  "unat x < 2 ^ n \<Longrightarrow> take_bit n x = x" for x :: "'a::len word"
proof -
  assume "unat x < 2 ^ n"
  then have "take_bit n (unat x) = unat x"
    by (rule take_bit_nat_eq_self)
  then have "unat (take_bit n x) = unat x"
    by (simp add: unsigned_take_bit_eq)
  then show ?thesis
    by (simp add: word_unat_eq_iff)
qed

lemma remove_after_insert:
  assumes "BITS \<in> {1, 2, 4, 8, 16}"
  shows "remIleavedBits_const BITS (ileaveZeros_const BITS x) = ucast (take_bit (kept_bits BITS) x)"
proof (rule bit_eqI)
  fix n
  from assms have B: "BITS \<in> {0, 1, 2, 3, 4, 5, 6, 7, 8, 16}"
    by auto
  have "bit (remIleavedBits_const BITS (ileaveZeros_const BITS x)) n \<longleftrightarrow>
      n < kept_bits BITS \<and>
      (\<exists>k < kept_bits BITS. n * (BITS + 1) = k * (BITS + 1) \<and> n * (BITS + 1) < 64 \<and> bit x k)"
    by (simp add: bit_remIleavedBits_const [OF assms] bit_ileaveZeros_const [OF B])
  also have "\<dots> \<longleftrightarrow> n < kept_bits BITS \<and> bit x n"
  proof -
    have eq: "n * (BITS + 1) = k * (BITS + 1) \<longleftrightarrow> n = k" for k
      by (simp only: mult_cancel2) simp
    show ?thesis
      unfolding eq using kept_bits_place [of n BITS] by auto
  qed
  also have "\<dots> \<longleftrightarrow> bit (ucast (take_bit (kept_bits BITS) x) :: u64) n"
    using kept_bits_le [of BITS] by (auto simp add: bit_ucast_iff bit_take_bit_iff)
  finally show "bit (remIleavedBits_const BITS (ileaveZeros_const BITS x)) n \<longleftrightarrow>
      bit (ucast (take_bit (kept_bits BITS) x) :: u64) n" .
qed

text \<open>
  C1, as the spec states it, fails: with stride 2 only the 22 low bits of a 32-bit input
  have a place in the 64-bit output, so bit 22 is lost on the way in.
\<close>

theorem roundtrip_all_inputs_counterexample:
  "remIleavedBits_const 2 (ileaveZeros_const 2 0x400000) \<noteq> ucast (0x400000 :: u32)"
proof -
  have "\<not> bit (remIleavedBits_const 2 (ileaveZeros_const 2 0x400000)) 22"
    by (simp add: bit_remIleavedBits_const kept_bits_def divCeil_def)
  moreover have "bit (ucast (0x400000 :: u32) :: u64) 22"
    by simp
  ultimately show ?thesis
    by metis
qed

text \<open>
  C1, amended. For every stride \<open>BITS\<close> among 1, 2, 4, 8 and 16 and every 32-bit \<open>x\<close>
  below \<open>2 ^ min 32 (divCeil 64 (BITS + 1))\<close> (that is, below \<open>2 ^ 32\<close>, \<open>2 ^ 22\<close>, \<open>2 ^ 13\<close>,
  \<open>2 ^ 8\<close> and \<open>2 ^ 4\<close>), removing the interleaved bits after inserting them gives \<open>x\<close>
  back. For stride 1 this is every 32-bit input.
\<close>

theorem roundtrip_kept_inputs:
  "BITS \<in> {1, 2, 4, 8, 16} \<Longrightarrow> unat x < 2 ^ min 32 (divCeil 64 (BITS + 1)) \<Longrightarrow>
     remIleavedBits_const BITS (ileaveZeros_const BITS x) = ucast x"
proof -
  assume B: "BITS \<in> {1, 2, 4, 8, 16}" and x: "unat x < 2 ^ min 32 (divCeil 64 (BITS + 1))"
  from x have "take_bit (kept_bits BITS) x = x"
    by (simp add: kept_bits_def take_bit_eq_self_unat)
  with remove_after_insert [OF B, of x] show ?thesis by simp
qed

theorem roundtrip_kept_inputs_witness:
  "(2 :: nat) \<in> {1, 2, 4, 8, 16} \<and> unat (0x3FFFFF :: u32) < 2 ^ min 32 (divCeil 64 (2 + 1))
   \<and> remIleavedBits_const 2 (ileaveZeros_const 2 0x3FFFFF) = ucast (0x3FFFFF :: u32)"
  using roundtrip_kept_inputs [of 2 "0x3FFFFF"] by (simp add: divCeil_def)

section \<open>Three-axis Morton codes\<close>

lemma ex_multiple_iff:
  fixes s :: nat
  assumes "0 < s"
  shows "(\<exists>k<L. j = k * s \<and> P k) \<longleftrightarrow> j mod s = 0 \<and> j div s < L \<and> P (j div s)"
    (is "?L \<longleftrightarrow> ?R")
proof
  assume ?L
  then obtain k where k: "k < L" "j = k * s" "P k"
    by blast
  have "k * s mod s = 0"
    by (rule mod_mult_self2_is_0)
  moreover have "k * s div s = k"
    using assms by (intro nonzero_mult_div_cancel_right) simp
  ultimately show ?R
    using k by simp
next
  assume R: ?R
  then have "s dvd j"
    by (simp add: mod_0_imp_dvd)
  then have "j = j div s * s"
    by (simp only: dvd_div_mult_self)
  with R have "j div s < L \<and> j = j div s * s \<and> P (j div s)"
    by simp
  then show ?L
    by (rule exI [of _ "j div s"])
qed

lemma bit_ileaveZeros_const_2:
  "bit (ileaveZeros_const 2 x) j \<longleftrightarrow> j < 64 \<and> j mod 3 = 0 \<and> bit x (j div 3)"
proof -
  have "bit (ileaveZeros_const 2 x) j \<longleftrightarrow> (\<exists>k<22. j = k * 3 \<and> (j < 64 \<and> bit x k))"
    by (simp add: bit_ileaveZeros_const kept_bits_def divCeil_def)
  also have "\<dots> \<longleftrightarrow> j mod 3 = 0 \<and> j div 3 < 22 \<and> (j < 64 \<and> bit x (j div 3))"
    by (rule ex_multiple_iff) simp
  finally show ?thesis
    by auto
qed

lemma bit_ileave3:
  "bit (ileave3 x y z) m \<longleftrightarrow>
     m < 64 \<and> (m mod 3 = 2 \<and> bit x (m div 3) \<or> m mod 3 = 1 \<and> bit y (m div 3)
        \<or> m mod 3 = 0 \<and> bit z (m div 3))"
proof -
  have x: "2 \<le> m \<and> (m - 2) mod 3 = 0 \<longleftrightarrow> m mod 3 = 2"
    by presburger
  have x': "(m - 2) div 3 = m div 3" if "m mod 3 = 2"
    using that by presburger
  have y: "Suc 0 \<le> m \<and> (m - Suc 0) mod 3 = 0 \<longleftrightarrow> m mod 3 = 1"
    by presburger
  have y': "(m - Suc 0) div 3 = m div 3" if "m mod 3 = 1"
    using that by presburger
  have px: "bit (push_bit 2 (ileaveZeros_const 2 x)) m \<longleftrightarrow>
      m < 64 \<and> m mod 3 = 2 \<and> bit x (m div 3)"
    using x x' by (simp only: bit_push_bit_iff possible_bit_word bit_ileaveZeros_const_2) auto
  have py: "bit (push_bit 1 (ileaveZeros_const 2 y)) m \<longleftrightarrow>
      m < 64 \<and> m mod 3 = 1 \<and> bit y (m div 3)"
    using y y' by (simp only: bit_push_bit_iff possible_bit_word bit_ileaveZeros_const_2) auto
  show ?thesis
    unfolding ileave3_def bit_or_iff px py bit_ileaveZeros_const_2 by auto
qed

lemma bit_remIleavedBits_const_2:
  "bit (ucast (remIleavedBits_const 2 (drop_bit s n)) :: u32) k \<longleftrightarrow> k < 22 \<and> bit n (s + k * 3)"
  by (auto simp add: bit_ucast_iff bit_remIleavedBits_const kept_bits_def divCeil_def
      bit_drop_bit_eq)

lemma bit_below:
  "unat x < 2 ^ m \<Longrightarrow> bit x k \<Longrightarrow> k < m" for x :: "'a::len word"
proof -
  assume x: "unat x < 2 ^ m" and k: "bit x k"
  from x have "take_bit m x = x"
    by (rule take_bit_eq_self_unat)
  with k have "bit (take_bit m x) k"
    by simp
  then show "k < m"
    by (simp add: bit_take_bit_iff)
qed

text \<open>
  C3. For all coordinates \<open>x\<close>, \<open>y\<close>, \<open>z\<close> strictly below \<open>2 ^ 21\<close>, \<open>dileave3\<close> applied to
  the Morton code \<open>ileave3 x y z\<close> gives back exactly \<open>(x, y, z)\<close>.
\<close>

theorem dileave3_ileave3:
  "x < 2 ^ 21 \<Longrightarrow> y < 2 ^ 21 \<Longrightarrow> z < 2 ^ 21 \<Longrightarrow> dileave3 (ileave3 x y z) = (x, y, z)"
proof -
  assume "x < 2 ^ 21" "y < 2 ^ 21" "z < 2 ^ 21"
  then have u: "unat x < 2 ^ 21" "unat y < 2 ^ 21" "unat z < 2 ^ 21"
    by (simp_all add: word_less_nat_alt)
  have small: "bit x k \<Longrightarrow> k < 21" "bit y k \<Longrightarrow> k < 21" "bit z k \<Longrightarrow> k < 21" for k
    using u [THEN bit_below] by blast+
  have m2: "(2 + k * 3) mod 3 = 2" "(2 + k * 3) div 3 = k" for k :: nat
    by presburger+
  have m1: "(1 + k * 3) mod 3 = 1" "(1 + k * 3) div 3 = k" for k :: nat
    by presburger+
  have m0: "(0 + k * 3) mod 3 = 0" "(0 + k * 3) div 3 = k" for k :: nat
    by presburger+
  have "bit (ucast (remIleavedBits_const 2 (drop_bit 2 (ileave3 x y z))) :: u32) k \<longleftrightarrow>
      k < 22 \<and> 2 + k * 3 < 64 \<and> bit x k" for k
    unfolding bit_remIleavedBits_const_2 bit_ileave3 m2 by simp
  then have "ucast (remIleavedBits_const 2 (drop_bit 2 (ileave3 x y z))) = x"
    using small(1) by (intro bit_eqI) fastforce
  moreover have "bit (ucast (remIleavedBits_const 2 (drop_bit 1 (ileave3 x y z))) :: u32) k \<longleftrightarrow>
      k < 22 \<and> 1 + k * 3 < 64 \<and> bit y k" for k
    unfolding bit_remIleavedBits_const_2 bit_ileave3 m1 by simp
  then have "ucast (remIleavedBits_const 2 (drop_bit 1 (ileave3 x y z))) = y"
    using small(2) by (intro bit_eqI) fastforce
  moreover have "bit (ucast (remIleavedBits_const 2 (drop_bit 0 (ileave3 x y z))) :: u32) k \<longleftrightarrow>
      k < 22 \<and> 0 + k * 3 < 64 \<and> bit z k" for k
    unfolding bit_remIleavedBits_const_2 bit_ileave3 m0 by simp
  then have "ucast (remIleavedBits_const 2 (drop_bit 0 (ileave3 x y z))) = z"
    using small(3) by (intro bit_eqI) fastforce
  ultimately show ?thesis
    by (simp only: dileave3_def)
qed

theorem dileave3_ileave3_witness:
  "(0x1FFFFF :: u32) < 2 ^ 21 \<and> (0x0F0F0F :: u32) < 2 ^ 21 \<and> (5 :: u32) < 2 ^ 21
   \<and> dileave3 (ileave3 0x1FFFFF 0x0F0F0F 5) = (0x1FFFFF, 0x0F0F0F, 5)"
  using dileave3_ileave3 [of "0x1FFFFF" "0x0F0F0F" 5] by simp

lemma three_bits:
  "bit (4 * of_bool a + 2 * of_bool b + of_bool c :: u32) k \<longleftrightarrow>
     k = 2 \<and> a \<or> k = 1 \<and> b \<or> k = 0 \<and> c"
proof -
  have "4 * of_bool a + 2 * of_bool b + of_bool c =
      (push_bit 2 (of_bool a) OR push_bit 1 (of_bool b) OR of_bool c :: u32)"
    by (cases a; cases b; cases c) simp_all
  then show ?thesis
    by (auto simp add: bit_simps)
qed

lemma nine_bit_component:
  assumes nine: "\<And>j. bit n j \<Longrightarrow> j < 9" and s: "s < 3"
  shows "k < 22 \<and> bit n (s + k * 3) \<longleftrightarrow>
     k = 2 \<and> bit n (s + 6) \<or> k = 1 \<and> bit n (s + 3) \<or> k = 0 \<and> bit n s"
proof -
  consider "k = 0" | "k = 1" | "k = 2" | "3 \<le> k"
    by linarith
  then show ?thesis
  proof cases
    case 4
    then have "\<not> s + k * 3 < 9"
      by simp
    with nine [of "s + k * 3"] have "\<not> bit n (s + k * 3)"
      by blast
    with 4 show ?thesis
      by simp
  qed simp_all
qed

text \<open>
  C8. For every 64-bit code \<open>n\<close> that fits in 9 bits, read \<open>abcdefghi\<close> from bit 8 down to
  bit 0, \<open>dileave3 n\<close> is the triple \<open>(adg, beh, cfi)\<close>: the first component is made of
  bits 8, 5, 2, the second of bits 7, 4, 1, the third of bits 6, 3, 0, which are the
  results of removing two interleaved bits from \<open>n\<close> shifted right by 2, 1 and 0.
\<close>

theorem dileave3_nine_bits:
  "n < 2 ^ 9 \<Longrightarrow>
     dileave3 n =
       (4 * of_bool (bit n 8) + 2 * of_bool (bit n 5) + of_bool (bit n 2),
        4 * of_bool (bit n 7) + 2 * of_bool (bit n 4) + of_bool (bit n 1),
        4 * of_bool (bit n 6) + 2 * of_bool (bit n 3) + of_bool (bit n 0))
     \<and> dileave3 n =
       (ucast (remIleavedBits_const 2 (drop_bit 2 n)),
        ucast (remIleavedBits_const 2 (drop_bit 1 n)),
        ucast (remIleavedBits_const 2 (drop_bit 0 n)))"
proof -
  assume "n < 2 ^ 9"
  then have "unat n < 2 ^ 9"
    by (simp add: word_less_nat_alt)
  then have nine: "bit n j \<Longrightarrow> j < 9" for j
    by (rule bit_below)
  have "bit (ucast (remIleavedBits_const 2 (drop_bit 2 n)) :: u32) k \<longleftrightarrow>
      bit (4 * of_bool (bit n 8) + 2 * of_bool (bit n 5) + of_bool (bit n 2) :: u32) k" for k
    unfolding bit_remIleavedBits_const_2 three_bits
    using nine_bit_component [of n 2 k, OF nine] by simp
  then have c2: "ucast (remIleavedBits_const 2 (drop_bit 2 n)) =
      (4 * of_bool (bit n 8) + 2 * of_bool (bit n 5) + of_bool (bit n 2) :: u32)"
    by (intro bit_eqI)
  have "bit (ucast (remIleavedBits_const 2 (drop_bit 1 n)) :: u32) k \<longleftrightarrow>
      bit (4 * of_bool (bit n 7) + 2 * of_bool (bit n 4) + of_bool (bit n 1) :: u32) k" for k
    unfolding bit_remIleavedBits_const_2 three_bits
    using nine_bit_component [of n 1 k, OF nine] by simp
  then have c1: "ucast (remIleavedBits_const 2 (drop_bit 1 n)) =
      (4 * of_bool (bit n 7) + 2 * of_bool (bit n 4) + of_bool (bit n 1) :: u32)"
    by (intro bit_eqI)
  have "bit (ucast (remIleavedBits_const 2 (drop_bit 0 n)) :: u32) k \<longleftrightarrow>
      bit (4 * of_bool (bit n 6) + 2 * of_bool (bit n 3) + of_bool (bit n 0) :: u32) k" for k
    unfolding bit_remIleavedBits_const_2 three_bits
    using nine_bit_component [of n 0 k, OF nine] by simp
  then have c0: "ucast (remIleavedBits_const 2 (drop_bit 0 n)) =
      (4 * of_bool (bit n 6) + 2 * of_bool (bit n 3) + of_bool (bit n 0) :: u32)"
    by (intro bit_eqI)
  show ?thesis
    by (simp only: dileave3_def c2 c1 c0 simp_thms)
qed

theorem dileave3_nine_bits_witness:
  "(0x167 :: u64) < 2 ^ 9 \<and> dileave3 0x167 = (7, 1, 5)"
  using dileave3_nine_bits [of "0x167"] by simp

section \<open>Two-axis Morton codes\<close>

lemma ileave2_inner_unfold:
  "ileave2_inner i n =
     (if 0 \<le> i
      then ileave2_inner (i - 1) (shl_or_mask (2 ^ nat i) (MASKS_ileave2 ! nat i) n)
      else n)"
  by (simp add: ileave2_inner.simps [of i n] shl_or_mask_def)

lemma ileave2_inner_zero: "ileave2_inner i 0 = 0"
proof (induction k \<equiv> "nat (i + 1)" arbitrary: i)
  case 0
  then show ?case by (simp add: ileave2_inner_unfold [of i])
next
  case (Suc k)
  then have "k = nat ((i - 1) + 1)" "0 \<le> i" by simp_all
  with Suc.hyps(1) [of "i - 1"] show ?case
    by (simp add: ileave2_inner_unfold [of i] shl_or_mask_zero)
qed

lemma ileave2_inner_or: "ileave2_inner i (a OR b) = ileave2_inner i a OR ileave2_inner i b"
proof (induction k \<equiv> "nat (i + 1)" arbitrary: i a b)
  case 0
  then show ?case by (simp add: ileave2_inner_unfold [of i])
next
  case (Suc k)
  then have k: "k = nat ((i - 1) + 1)" and i: "0 \<le> i" by simp_all
  show ?case
    using i by (simp add: ileave2_inner_unfold [of i] shl_or_mask_or Suc.hyps(1) [OF k])
qed

lemma ileave2_singles:
  "all_below 32 (\<lambda>k. ileave2_inner 4 (single k) = single (2 * k))"
  by (simp add: ileave2_inner_unfold shl_or_mask_single shl_or_mask_zero MASKS_ileave2_def
      all_below_numeral single_eq_iff)

lemma bit_ileave2_inner:
  "bit (ileave2_inner 4 (ucast (x :: u32))) n \<longleftrightarrow> (\<exists>k<32. n = 2 * k \<and> bit x k)"
proof -
  have singles: "ileave2_inner 4 (single k) = single (2 * k)" if "k < 32" for k
    using ileave2_singles that by (simp add: all_below_iff)
  have x: "bit (ucast x :: u64) k \<longleftrightarrow> k < 32 \<and> bit x k" for k
    using bit_imp_le_length [of x k] by (auto simp add: bit_ucast_iff)
  have "bit (ileave2_inner 4 (ucast x)) n \<longleftrightarrow>
      (\<exists>k<64. bit (ucast x :: u64) k \<and> bit (ileave2_inner 4 (single k)) n)"
    by (rule or_hom_bits) (simp_all add: ileave2_inner_zero ileave2_inner_or)
  also have "\<dots> \<longleftrightarrow> (\<exists>k<32. bit x k \<and> bit (ileave2_inner 4 (single k)) n)"
  proof -
    have "k < 64" if "k < 32" for k :: nat
      using that by simp
    then show ?thesis
      unfolding x by blast
  qed
  also have "\<dots> \<longleftrightarrow> (\<exists>k<32. bit x k \<and> bit (single (2 * k)) n)"
    using singles by (intro ex_cong) auto
  also have "\<dots> \<longleftrightarrow> (\<exists>k<32. n = 2 * k \<and> bit x k)"
    by (auto simp add: bit_single)
  finally show ?thesis .
qed

lemma ileave2_eq:
  "ileave2 hi lo =
     push_bit 1 (ileave2_inner 4 (ucast hi)) OR push_bit 0 (ileave2_inner 4 (ucast lo))"
proof -
  have s2: "ileave2_outer [hi, lo] 2 r = r" for r
    by (subst ileave2_outer.simps) simp
  have s1: "ileave2_outer [hi, lo] 1 r =
      ileave2_outer [hi, lo] 2 (r OR push_bit 0 (ileave2_inner 4 (ucast lo)))" for r
    by (subst ileave2_outer.simps) (simp add: numeral_2_eq_2 [symmetric])
  have s0: "ileave2_outer [hi, lo] 0 r =
      ileave2_outer [hi, lo] 1 (r OR push_bit 1 (ileave2_inner 4 (ucast hi)))" for r
    by (subst ileave2_outer.simps) simp
  show ?thesis
    unfolding ileave2_def s0 s1 s2 by simp
qed

lemma bit_ileave2:
  "bit (ileave2 hi lo) m \<longleftrightarrow> (if even m then bit lo (m div 2) else bit hi (m div 2))"
proof -
  have lo: "(\<exists>k<32. m = 2 * k \<and> bit lo k) \<longleftrightarrow> even m \<and> bit lo (m div 2)"
    using bit_imp_le_length [of lo "m div 2"] by auto
  have hi: "1 \<le> m \<and> m < 64 \<and> (\<exists>k<32. m - 1 = 2 * k \<and> bit hi k) \<longleftrightarrow> odd m \<and> bit hi (m div 2)"
    (is "?L \<longleftrightarrow> ?R")
  proof
    assume ?L
    then obtain k where "1 \<le> m" "m - 1 = 2 * k" "bit hi k"
      by blast
    moreover from this have "m = 2 * k + 1"
      by simp
    ultimately show ?R
      by simp
  next
    assume R: ?R
    then have "m div 2 < 32"
      using bit_imp_le_length [of hi "m div 2"] by simp
    moreover from R have "odd m"
      by simp
    then have "m - 1 = 2 * (m div 2)" "1 \<le> m"
      by presburger+
    moreover from \<open>m div 2 < 32\<close> have "m < 64"
      by presburger
    ultimately show ?L
      using R by blast
  qed
  have "bit (ileave2 hi lo) m \<longleftrightarrow>
      (1 \<le> m \<and> m < 64 \<and> (\<exists>k<32. m - 1 = 2 * k \<and> bit hi k)) \<or> (\<exists>k<32. m = 2 * k \<and> bit lo k)"
    by (simp only: ileave2_eq bit_or_iff bit_push_bit_iff possible_bit_word bit_ileave2_inner)
      auto
  then show ?thesis
    unfolding lo hi by auto
qed

text \<open>
  C7. For every pair of 32-bit inputs \<open>hi\<close> and \<open>lo\<close> and every \<open>k\<close> (in particular every
  \<open>k\<close> below 32), bit \<open>2 * k\<close> of \<open>ileave2 hi lo\<close> is bit \<open>k\<close> of \<open>lo\<close> and bit \<open>2 * k + 1\<close> is
  bit \<open>k\<close> of \<open>hi\<close>; and \<open>ileave2 0b111 0b000 = 0b101010\<close>.
\<close>

theorem ileave2_places:
  "bit (ileave2 hi lo) (2 * k) = bit lo k
   \<and> bit (ileave2 hi lo) (2 * k + 1) = bit hi k
   \<and> ileave2 7 0 = 42"
proof (intro conjI)
  show "bit (ileave2 hi lo) (2 * k) = bit lo k"
    by (simp add: bit_ileave2)
  show "bit (ileave2 hi lo) (2 * k + 1) = bit hi k"
    by (simp add: bit_ileave2)
  have seven: "ucast (7 :: u32) = (single 0 OR single 1 OR single 2 :: u64)"
    by (simp add: single_def)
  have "ileave2_inner 4 (ucast (7 :: u32)) = single 0 OR single 2 OR single 4"
    unfolding seven using ileave2_singles by (simp add: all_below_iff ileave2_inner_or)
  then show "ileave2 7 0 = 42"
    by (simp add: ileave2_eq ileave2_inner_zero single_def)
qed

section \<open>Byte planes\<close>

lemma bit_lane: "bit (lane bytes d) k \<longleftrightarrow> k < 8 \<and> bit bytes (8 * d + k)"
proof -
  have m: "(0xff :: u64) = mask 8"
    by (simp add: mask_eq_exp_minus_1)
  have "bit (0xff :: u64) k \<longleftrightarrow> k < 8"
    unfolding m by (auto simp add: bit_mask_iff)
  then show ?thesis
    by (auto simp add: lane_def bit_ucast_iff bit_and_iff bit_drop_bit_eq)
qed

lemma lane_0: "ucast (bytes AND 0xff) = lane bytes 0"
  by (simp add: lane_def)

lemma lane_Suc: "lane (drop_bit 8 bytes) d = lane bytes (Suc d)"
  by (simp add: lane_def drop_bit_drop_bit add.commute)

lemma bit_ileaveBytes_const_loop:
  "bit (ileaveBytes_const_loop COUNT i bytes result) n \<longleftrightarrow>
     bit result n \<or>
     (\<exists>d. i + d < COUNT \<and> bit (push_bit (i + d) (ileaveZeros_const (COUNT - 1) (lane bytes d))) n)"
proof (induction COUNT i bytes result rule: ileaveBytes_const_loop.induct)
  case (1 COUNT i bytes result)
  let ?P = "\<lambda>bytes i d. bit (push_bit (i + d) (ileaveZeros_const (COUNT - 1) (lane bytes d))) n"
  show ?case
  proof (cases "i < COUNT")
    case False
    then show ?thesis
      by (simp add: ileaveBytes_const_loop.simps [of COUNT i])
  next
    case True
    have split: "(\<exists>d. i + d < COUNT \<and> ?P bytes i d) \<longleftrightarrow>
        ?P bytes i 0 \<or> (\<exists>d. i + 1 + d < COUNT \<and> ?P (drop_bit 8 bytes) (i + 1) d)"
      (is "?L \<longleftrightarrow> ?A \<or> ?B")
    proof
      assume ?L
      then obtain d where d: "i + d < COUNT" "?P bytes i d"
        by blast
      show "?A \<or> ?B"
      proof (cases d)
        case 0
        with d show ?thesis by simp
      next
        case (Suc d')
        with d have "i + 1 + d' < COUNT \<and> ?P (drop_bit 8 bytes) (i + 1) d'"
          by (simp add: lane_Suc)
        then show ?thesis by blast
      qed
    next
      assume "?A \<or> ?B"
      then show ?L
      proof
        assume ?A
        with True have "i + 0 < COUNT \<and> ?P bytes i 0"
          by simp
        then show ?L by blast
      next
        assume ?B
        then obtain d where "i + 1 + d < COUNT" "?P (drop_bit 8 bytes) (i + 1) d"
          by blast
        then have "i + Suc d < COUNT \<and> ?P bytes i (Suc d)"
          by (simp add: lane_Suc)
        then show ?L by blast
      qed
    qed
    have "bit (ileaveBytes_const_loop COUNT i bytes result) n \<longleftrightarrow>
        bit (ileaveBytes_const_loop COUNT (i + 1) (drop_bit 8 bytes)
          (result OR push_bit i (ileaveZeros_const (COUNT - 1) (lane bytes 0)))) n"
      using True by (simp add: ileaveBytes_const_loop.simps [of COUNT i] lane_0)
    also have "\<dots> \<longleftrightarrow> (bit result n \<or> ?P bytes i 0)
        \<or> (\<exists>d. i + 1 + d < COUNT \<and> ?P (drop_bit 8 bytes) (i + 1) d)"
      using "1.IH" [OF True] by (simp add: lane_0 bit_or_iff)
    finally show ?thesis
      unfolding split by blast
  qed
qed

lemma bit_ileaveBytes_const:
  assumes "count \<le> 8"
  shows "bit (ileaveBytes_const count bytes) n \<longleftrightarrow>
    (\<exists>i<count. \<exists>j<8. n = j * count + i \<and> bit bytes (8 * i + j))"
proof (cases "count = 0")
  case True
  then show ?thesis
    by (simp add: ileaveBytes_const_def)
next
  case False
  with assms have B: "count - 1 \<in> {0, 1, 2, 3, 4, 5, 6, 7, 8, 16}"
    by auto
  from False have c: "count - 1 + 1 = count"
    by simp
  have kept: "j < kept_bits (count - 1)" if "j < 8" for j
  proof -
    from that have "j * count \<le> 7 * 8"
      using assms by (intro mult_mono) simp_all
    then have "j * count < 64"
      by simp
    with False have "j < divCeil 64 count"
      by (simp add: divCeil_less_iff)
    with that show ?thesis
      unfolding kept_bits_def c by simp
  qed
  have place: "j * count + i < 64" if "j < 8" "i < count" for i j
  proof -
    from that have "j * count \<le> 7 * count"
      by (intro mult_right_mono) simp_all
    with that assms show ?thesis
      by linarith
  qed
  have "bit (ileaveBytes_const count bytes) n \<longleftrightarrow>
      (\<exists>d<count. bit (push_bit d (ileaveZeros_const (count - 1) (lane bytes d))) n)"
    using False by (simp add: ileaveBytes_const_def bit_ileaveBytes_const_loop)
  also have "\<dots> \<longleftrightarrow> (\<exists>d<count. d \<le> n \<and> n < 64 \<and>
      (\<exists>k < kept_bits (count - 1). n - d = k * count \<and> n - d < 64 \<and> k < 8
         \<and> bit bytes (8 * d + k)))"
    by (simp only: bit_push_bit_iff possible_bit_word bit_ileaveZeros_const [OF B] c bit_lane)
      simp
  also have "\<dots> \<longleftrightarrow> (\<exists>i<count. \<exists>j<8. n = j * count + i \<and> bit bytes (8 * i + j))"
    (is "?L \<longleftrightarrow> ?R")
  proof
    assume ?L
    then obtain d k where "d < count" "d \<le> n" "n - d = k * count" "k < 8" "bit bytes (8 * d + k)"
      by blast
    moreover from this have "n = k * count + d"
      by simp
    ultimately show ?R
      by blast
  next
    assume ?R
    then obtain i j where ij: "i < count" "j < 8" "n = j * count + i" "bit bytes (8 * i + j)"
      by blast
    then have "i \<le> n \<and> n < 64 \<and> j < kept_bits (count - 1) \<and> n - i = j * count \<and> n - i < 64
        \<and> j < 8 \<and> bit bytes (8 * i + j)"
      using kept [of j] place [of j i] by simp
    with ij(1) show ?L
      by blast
  qed
  finally show ?thesis .
qed

text \<open>
  C5. For every lane count from 0 to 8 and every 64-bit input \<open>bytes\<close>, \<open>ileaveBytes\<close>
  returns a value whose bit \<open>n\<close> is set exactly when \<open>n = j * count + i\<close> for a lane
  \<open>i < count\<close> and a bit index \<open>j < 8\<close> such that bit \<open>j\<close> of byte lane \<open>i\<close> of \<open>bytes\<close>
  (bit \<open>8 * i + j\<close> of the word) is set: each lane bit appears at its position and no other
  output bit is set.
\<close>

theorem ileaveBytes_places:
  "count \<le> 8 \<Longrightarrow>
     \<exists>r. ileaveBytes b bytes count = Returned r
       \<and> (\<forall>n. bit r n \<longleftrightarrow> (\<exists>i<count. \<exists>j<8. n = j * count + i \<and> bit bytes (8 * i + j)))"
  by (simp add: ileaveBytes_def ileaveBytes_jmp_def VXIO_DEBUG_ASSERT_LE_def
      bit_ileaveBytes_const)

theorem ileaveBytes_places_witness:
  "(3 :: nat) \<le> 8 \<and>
     (\<exists>r. ileaveBytes Debug 0x030201 3 = Returned r
       \<and> (\<forall>n. bit r n \<longleftrightarrow> (\<exists>i<3. \<exists>j<8. n = j * 3 + i \<and> bit (0x030201 :: u64) (8 * i + j))))"
  using ileaveBytes_places [of 3 Debug "0x030201"] by simp

section \<open>Preconditions of the byte-plane functions\<close>

text \<open>
  C9. In a debug build, \<open>ileaveBytes\<close> and \<open>dileave_bytes\<close> called with a count above 8
  (9 in particular) end in the assertion failure and return nothing; with a count of at
  most 8 the assertion does not fire and the dispatched instantiation returns its value.
\<close>

theorem byte_plane_assertion:
  "ileaveBytes Debug bytes count =
     (if count \<le> 8 then Returned (ileaveBytes_const count bytes) else AssertionFailed)
   \<and> dileave_bytes Debug bytes count =
     (if count \<le> 8 then Returned (dileaveBytes_const count bytes) else AssertionFailed)
   \<and> ileaveBytes Debug bytes 9 = AssertionFailed
   \<and> dileave_bytes Debug bytes 9 = AssertionFailed"
  by (simp add: ileaveBytes_def ileaveBytes_jmp_def dileave_bytes_def dileaveBytes_jmp_def
      VXIO_DEBUG_ASSERT_LE_def)

section \<open>Byte de-interleaving\<close>

lemma take_bit_8_dileaveBytes_const_loop:
  "i < COUNT \<Longrightarrow> take_bit 8 (dileaveBytes_const_loop COUNT i ileaved result) = 0"
proof (induction COUNT i ileaved result rule: dileaveBytes_const_loop.induct)
  case (1 COUNT i ileaved result)
  let ?r = "push_bit 8 (result OR remIleavedBits_const (COUNT - 1) (drop_bit i ileaved))"
  from "1.prems" have step: "dileaveBytes_const_loop COUNT i ileaved result =
      dileaveBytes_const_loop COUNT (i + 1) ileaved ?r"
    by (simp add: dileaveBytes_const_loop.simps [of COUNT i])
  show ?case
  proof (cases "i + 1 < COUNT")
    case True
    with "1.IH" [OF "1.prems"] show ?thesis
      by (simp only: step)
  next
    case False
    then have "dileaveBytes_const_loop COUNT (i + 1) ileaved ?r = ?r"
      by (subst dileaveBytes_const_loop.simps) simp
    then show ?thesis
      by (simp add: step take_bit_push_bit)
  qed
qed

lemma low_byte_zero: "take_bit 8 r = 0 \<Longrightarrow> r AND 0xff = 0" for r :: u64
proof -
  have "(0xff :: u64) = mask 8"
    by (simp add: mask_eq_exp_minus_1)
  then show "take_bit 8 r = 0 \<Longrightarrow> r AND 0xff = 0"
    by (simp only: take_bit_eq_mask)
qed

text \<open>
  C10. For every lane count from 1 to 8 and every 64-bit input, \<open>dileave_bytes\<close> returns
  a value whose lowest 8 bits are zero: the loop shifts the accumulated result left by 8
  after OR-ing in each extracted lane, the last one included.
\<close>

theorem dileave_bytes_low_byte:
  "1 \<le> count \<Longrightarrow> count \<le> 8 \<Longrightarrow>
     \<exists>r. dileave_bytes b input count = Returned r \<and> r AND 0xff = 0"
  by (simp add: dileave_bytes_def dileaveBytes_jmp_def VXIO_DEBUG_ASSERT_LE_def
      dileaveBytes_const_def take_bit_8_dileaveBytes_const_loop low_byte_zero)

theorem dileave_bytes_low_byte_witness:
  "(1 :: nat) \<le> 2 \<and> (2 :: nat) \<le> 8
   \<and> (\<exists>r. dileave_bytes Debug 0xFFFF 2 = Returned r \<and> r AND 0xff = 0)"
  using dileave_bytes_low_byte [of 2 Debug "0xFFFF"] by simp

text \<open>
  C2 asks that de-interleaving undoes interleaving. With one lane holding the byte 1 the
  interleaved value is 1, and \<open>dileave_bytes\<close> answers \<open>0x100\<close>: the lane has been shifted
  out of its place by the trailing shift of the loop.
\<close>

theorem byte_roundtrip_one_lane:
  "ileaveBytes Debug 1 1 = Returned 1 \<and> dileave_bytes Debug 1 1 = Returned 0x100"
proof -
  have i1: "ileaveBytes_const_loop 1 1 bytes r = r" for bytes r
    by (subst ileaveBytes_const_loop.simps) simp
  have i0: "ileaveBytes_const_loop 1 0 bytes r =
      ileaveBytes_const_loop 1 1 (drop_bit 8 bytes)
        (r OR push_bit 0 (ileaveZeros_const 0 (ucast (bytes AND 0xff))))" for bytes r
    by (subst ileaveBytes_const_loop.simps) simp
  have d1: "dileaveBytes_const_loop 1 1 v r = r" for v r
    by (subst dileaveBytes_const_loop.simps) simp
  have d0: "dileaveBytes_const_loop 1 0 v r =
      dileaveBytes_const_loop 1 1 v (push_bit 8 (r OR remIleavedBits_const 0 (drop_bit 0 v)))"
    for v r
    by (subst dileaveBytes_const_loop.simps) simp
  have "ileaveBytes_const 1 1 = 1"
    unfolding ileaveBytes_const_def i0 i1 by (simp add: ileaveZeros_const_def)
  moreover have "dileaveBytes_const 1 1 = 0x100"
    unfolding dileaveBytes_const_def d0 d1 by (simp add: remIleavedBits_const_def)
  ultimately show ?thesis
    by (simp add: ileaveBytes_def ileaveBytes_jmp_def dileave_bytes_def dileaveBytes_jmp_def
        VXIO_DEBUG_ASSERT_LE_def)
qed

end
